theory Spec2Isabelle
  imports Complex_Main
begin

section \<open>The CSV reader that CsvToSlice calls\<close>

text \<open>
  \<^verbatim>\<open>CsvToSlice\<close> (main.go, lines 40-64) starts with
  \<^verbatim>\<open>csv.NewReader(strings.NewReader(data)).ReadAll()\<close>. The reader is Go's
  \<^verbatim>\<open>encoding/csv\<close>, used with the settings \<^verbatim>\<open>NewReader\<close> leaves: comma as
  the delimiter, no comment character, no lazy quotes, no trimming of leading space, and
  \<^verbatim>\<open>FieldsPerRecord = 0\<close>. Its documented behaviour is modelled here on bytes
  (a Go string is a byte sequence, and so is a HOL \<open>string\<close>). The position fields of
  the reader's \<^verbatim>\<open>ParseError\<close> (line and column) are left out: only the kind of the
  error is kept.
\<close>

abbreviation NL :: char where "NL \<equiv> CHR 0x0A"
abbreviation CR :: char where "CR \<equiv> CHR 0x0D"
abbreviation DQ :: char where "DQ \<equiv> CHR 0x22"
abbreviation Comma :: char where "Comma \<equiv> CHR 0x2C"

datatype csv_error = ErrBareQuote | ErrQuote | ErrFieldCount

text \<open>
  \<^verbatim>\<open>bytes.IndexByte\<close>: the index of the first occurrence, \<open>None\<close> for Go's -1.
\<close>

definition IndexByte :: "string \<Rightarrow> char \<Rightarrow> nat option" where
  "IndexByte b c =
     (if c \<in> set b then Some (length (takeWhile (\<lambda>x. x \<noteq> c) b)) else None)"

text \<open>\<^verbatim>\<open>lengthNL\<close>: the number of bytes of the trailing newline, 0 or 1.\<close>

definition lengthNL :: "string \<Rightarrow> nat" where
  "lengthNL b = (if b \<noteq> [] \<and> last b = NL then 1 else 0)"

text \<open>
  \<^verbatim>\<open>bufio.Reader.ReadSlice('\\n')\<close> on the input left: the bytes up to and including
  the first newline, the input after them, and whether the end of the input was hit before
  a newline was found.
\<close>

fun ReadSlice :: "string \<Rightarrow> string \<times> string \<times> bool" where
  "ReadSlice [] = ([], [], True)"
| "ReadSlice (c # cs) =
     (if c = NL then ([NL], cs, False)
      else (case ReadSlice cs of (l, r, eof) \<Rightarrow> (c # l, r, eof)))"

text \<open>
  \<^verbatim>\<open>readLine\<close>: the next line with its trailing newline, and the input left after it.
  \<open>None\<close> is \<^verbatim>\<open>io.EOF\<close> (nothing was read). A last line without a newline is
  returned without error, and a carriage return right before the end of the input is
  dropped; a line ending in CR LF is returned ending in LF alone.
\<close>

definition dropTrailingCR :: "bool \<Rightarrow> string \<Rightarrow> string" where
  "dropTrailingCR eof line =
     (if eof \<and> line \<noteq> [] \<and> last line = CR then butlast line else line)"

definition normalizeCRLF :: "string \<Rightarrow> string" where
  "normalizeCRLF line =
     (if 2 \<le> length line \<and> line ! (length line - 2) = CR \<and> line ! (length line - 1) = NL
      then take (length line - 2) line @ [NL] else line)"

definition readLine :: "string \<Rightarrow> (string \<times> string) option" where
  "readLine inp =
     (case ReadSlice inp of
        (line, rest, eof) \<Rightarrow>
          (if line = [] then None
           else Some (normalizeCRLF (dropTrailingCR eof line), rest)))"

lemma IndexByte_less: "IndexByte b c = Some i \<Longrightarrow> i < length b"
proof -
  assume a: "IndexByte b c = Some i"
  then have m: "c \<in> set b" and i: "i = length (takeWhile (\<lambda>x. x \<noteq> c) b)"
    by (auto simp: IndexByte_def split: if_splits)
  have "takeWhile (\<lambda>x. x \<noteq> c) b \<noteq> b" using m by (simp add: takeWhile_eq_all_conv)
  then have "length (takeWhile (\<lambda>x. x \<noteq> c) b) \<noteq> length b"
    by (metis takeWhile_eq_take take_all_iff order_refl)
  then show ?thesis unfolding i using length_takeWhile_le[of "\<lambda>x. x \<noteq> c" b] by linarith
qed

lemma ReadSlice_length: "ReadSlice inp = (l, r, e) \<Longrightarrow> length l + length r = length inp"
  by (induction inp arbitrary: l r e) (auto split: if_splits prod.splits)

lemma dropTrailingCR_length: "length (dropTrailingCR e l) \<le> length l"
  by (simp add: dropTrailingCR_def)

lemma normalizeCRLF_length: "length (normalizeCRLF l) \<le> length l"
  by (auto simp: normalizeCRLF_def)

lemma readLine_length:
  assumes "readLine inp = Some (l, r)"
  shows "length l + length r \<le> length inp" and "length r < length inp"
proof -
  obtain l0 r0 e where rs: "ReadSlice inp = (l0, r0, e)" by (cases "ReadSlice inp") auto
  from assms rs have eq: "l = normalizeCRLF (dropTrailingCR e l0)" "r = r0" and ne: "l0 \<noteq> []"
    by (auto simp: readLine_def split: if_splits)
  show "length l + length r \<le> length inp"
    using eq ReadSlice_length[OF rs] dropTrailingCR_length[of e l0]
      normalizeCRLF_length[of "dropTrailingCR e l0"] by simp
  show "length r < length inp"
    using eq ne ReadSlice_length[OF rs] by (cases l0) auto
qed

text \<open>
  The field loop of \<^verbatim>\<open>readRecord\<close> (the label \<^verbatim>\<open>parseField\<close>). \<open>quoted\<close>
  says whether the loop is inside a quoted field, whose text so far is \<open>buf\<close>;
  \<open>line\<close> is what is left of the current line, \<open>rest\<close> the input after it, and
  \<open>fields\<close> the fields completed so far. A quoted field may run over several lines, which
  are then read from \<open>rest\<close>. The result is the record's fields and the input left.
\<close>

function parseField ::
  "bool \<Rightarrow> string \<Rightarrow> string \<Rightarrow> string \<Rightarrow> string list \<Rightarrow> csv_error + (string list \<times> string)"
where
  "parseField quoted line rest buf fields =
     (if \<not> quoted then
        (if line = [] \<or> hd line \<noteq> DQ then
           (case IndexByte line Comma of
              Some i \<Rightarrow>
                (if DQ \<in> set (take i line) then Inl ErrBareQuote
                 else parseField False (drop (i + 1) line) rest [] (fields @ [take i line]))
            | None \<Rightarrow>
                (if DQ \<in> set (take (length line - lengthNL line) line) then Inl ErrBareQuote
                 else Inr (fields @ [take (length line - lengthNL line) line], rest)))
         else parseField True (drop 1 line) rest [] fields)
      else
        (case IndexByte line DQ of
           Some i \<Rightarrow>
             (if drop (i + 1) line \<noteq> [] \<and> hd (drop (i + 1) line) = DQ
                then parseField True (drop (i + 2) line) rest (buf @ take i line @ [DQ]) fields
              else if drop (i + 1) line \<noteq> [] \<and> hd (drop (i + 1) line) = Comma
                then parseField False (drop (i + 2) line) rest [] (fields @ [buf @ take i line])
              else if lengthNL (drop (i + 1) line) = length (drop (i + 1) line)
                then Inr (fields @ [buf @ take i line], rest)
              else Inl ErrQuote)
         | None \<Rightarrow>
             (if line \<noteq> [] then
                (case readLine rest of
                   Some (l, r) \<Rightarrow> parseField True l r (buf @ line) fields
                 | None \<Rightarrow> parseField True [] [] (buf @ line) fields)
              else Inl ErrQuote)))"
  by pat_completeness auto

termination parseField
  apply (relation "measure (\<lambda>(q, line, rest, buf, fields). length line + length rest)")
  apply simp
  subgoal for quoted line rest buf fields i
    using IndexByte_less[of line Comma i] by simp
  subgoal for quoted line rest buf fields
    by (cases line) auto
  subgoal for quoted line rest buf fields
    by (cases line) auto
  subgoal for quoted line rest buf fields x l r
    using readLine_length(1)[of rest l r] by (cases line) auto
  subgoal for quoted line rest buf fields i
    by (cases "drop (i + 1) line") auto
  subgoal for quoted line rest buf fields i
    by (cases "drop (i + 1) line") auto
  done

declare parseField.simps [simp del]

text \<open>
  The first loop of \<^verbatim>\<open>readRecord\<close>: read lines until one is not empty (a line that
  is only its newline is skipped). \<open>None\<close> is \<^verbatim>\<open>io.EOF\<close>.
\<close>

function nextLine :: "string \<Rightarrow> (string \<times> string) option" where
  "nextLine inp =
     (case readLine inp of
        None \<Rightarrow> None
      | Some (line, rest) \<Rightarrow>
          (if length line = lengthNL line then nextLine rest else Some (line, rest)))"
  by pat_completeness auto
termination
  by (relation "measure length") (auto dest: readLine_length(2))

declare nextLine.simps [simp del]

text \<open>
  The reader's state: the input not yet read and \<^verbatim>\<open>FieldsPerRecord\<close>.
  \<^verbatim>\<open>csv.NewReader\<close> leaves \<^verbatim>\<open>FieldsPerRecord\<close> at 0, which makes the first
  record set it, "so that future records must have the same field count"; a negative
  value would switch the check off, and nothing in main.go sets one.
\<close>

record Reader =
  input :: string
  FieldsPerRecord :: int

definition NewReader :: "string \<Rightarrow> Reader" where
  "NewReader data = \<lparr>input = data, FieldsPerRecord = 0\<rparr>"

datatype read_result = EOF | Failed csv_error | Record "string list" Reader

definition readRecord :: "Reader \<Rightarrow> read_result" where
  "readRecord r =
     (case nextLine (input r) of
        None \<Rightarrow> EOF
      | Some (line, rest) \<Rightarrow>
          (case parseField False line rest [] [] of
             Inl e \<Rightarrow> Failed e
           | Inr (dst, rest') \<Rightarrow>
               (if FieldsPerRecord r > 0 then
                  (if int (length dst) \<noteq> FieldsPerRecord r then Failed ErrFieldCount
                   else Record dst (r\<lparr>input := rest'\<rparr>))
                else if FieldsPerRecord r = 0 then
                  Record dst (r\<lparr>input := rest', FieldsPerRecord := int (length dst)\<rparr>)
                else Record dst (r\<lparr>input := rest'\<rparr>))))"

lemma parseField_rest:
  "parseField q line rest buf fs = Inr (dst, rest') \<Longrightarrow> length rest' \<le> length rest"
proof (induction q line rest buf fs rule: parseField.induct)
  case (1 quoted line rest buf fs)
  show ?case
  proof (cases quoted)
    case False
    show ?thesis
    proof (cases "line = [] \<or> hd line \<noteq> DQ")
      case True
      with False "1.prems" "1.IH"(1) show ?thesis
        by (subst (asm) parseField.simps) (auto split: option.splits if_splits)
    next
      case nq: False
      with False "1.prems" "1.IH"(2) show ?thesis
        by (subst (asm) parseField.simps) (auto split: option.splits if_splits)
    qed
  next
    case True
    show ?thesis
    proof (cases "IndexByte line DQ")
      case None
      with True "1.prems" "1.IH"(3,4) show ?thesis
        by (subst (asm) parseField.simps)
          (force split: option.splits if_splits dest: readLine_length(2))
    next
      case (Some i)
      with True "1.prems" "1.IH"(5,6) show ?thesis
        by (subst (asm) parseField.simps) (auto split: if_splits)
    qed
  qed
qed

lemma nextLine_rest: "nextLine inp = Some (line, rest) \<Longrightarrow> length rest < length inp"
proof (induction inp rule: nextLine.induct)
  case (1 inp)
  from "1.prems" obtain l r where rl: "readLine inp = Some (l, r)"
    by (subst (asm) nextLine.simps) (auto split: option.splits)
  show ?case
  proof (cases "length l = lengthNL l")
    case True
    with rl "1.prems" have "nextLine r = Some (line, rest)"
      by (subst (asm) nextLine.simps) simp
    with "1.IH"[OF rl refl True] readLine_length(2)[OF rl] show ?thesis by simp
  next
    case False
    with rl "1.prems" have "rest = r" by (subst (asm) nextLine.simps) simp
    with readLine_length(2)[OF rl] show ?thesis by simp
  qed
qed

lemma readRecord_rest:
  "readRecord r = Record dst r' \<Longrightarrow> length (input r') < length (input r)"
  by (auto simp: readRecord_def split: option.splits sum.splits if_splits prod.splits
        dest!: parseField_rest nextLine_rest)

text \<open>
  \<^verbatim>\<open>ReadAll\<close>: read records until \<^verbatim>\<open>io.EOF\<close>, which ends the loop with the
  records read; any other error ends it with that error and no records.
\<close>

function ReadAll_loop :: "Reader \<Rightarrow> string list list \<Rightarrow> csv_error + string list list" where
  "ReadAll_loop r records =
     (case readRecord r of
        EOF \<Rightarrow> Inr records
      | Failed e \<Rightarrow> Inl e
      | Record dst r' \<Rightarrow> ReadAll_loop r' (records @ [dst]))"
  by pat_completeness auto
termination
  by (relation "measure (\<lambda>(r, records). length (input r))") (auto dest: readRecord_rest)

declare ReadAll_loop.simps [simp del]

definition ReadAll :: "Reader \<Rightarrow> csv_error + string list list" where
  "ReadAll r = ReadAll_loop r []"

section \<open>CsvToSlice\<close>

text \<open>
  The table is Go's \<^verbatim>\<open>map[string][]string\<close>: a finite map from column name to the
  column's cells. A Go map has one entry per key and no order of its own.
\<close>

type_synonym table = "string \<rightharpoonup> string list"

text \<open>
  The errors \<^verbatim>\<open>CsvToSlice\<close> can return: the reader's error, passed on as it is
  (main.go, lines 43-45), or \<^verbatim>\<open>errors.New("no data found")\<close> (lines 47-49).
\<close>

datatype csv_to_slice_error = ReaderError csv_error | ErrorsNew string

text \<open>
  The inner loop (main.go, lines 56-60), over \<^verbatim>\<open>records[1:]\<close>: a record with more
  than \<open>i\<close> fields appends its field \<open>i\<close> to \<^verbatim>\<open>result[col]\<close>; a shorter one
  is passed over. Reading a key the map does not hold gives Go's nil slice.
\<close>

fun append_rows :: "nat \<Rightarrow> string \<Rightarrow> string list list \<Rightarrow> table \<Rightarrow> table" where
  "append_rows i col [] result = result"
| "append_rows i col (record # records) result =
     append_rows i col records
       (if i < length record
        then result(col \<mapsto> (case result col of None \<Rightarrow> [] | Some vs \<Rightarrow> vs) @ [record ! i])
        else result)"

text \<open>
  The outer loop (main.go, lines 54-61), over the header with its index: the column's
  entry is first set to an empty slice, then filled by the inner loop.
\<close>

fun header_loop :: "nat \<Rightarrow> string list \<Rightarrow> string list list \<Rightarrow> table \<Rightarrow> table" where
  "header_loop i [] records result = result"
| "header_loop i (col # header) records result =
     header_loop (Suc i) header records (append_rows i col records (result(col \<mapsto> [])))"

definition CsvToSlice :: "string \<Rightarrow> csv_to_slice_error + table" where
  "CsvToSlice data =
     (case ReadAll (NewReader data) of
        Inl err \<Rightarrow> Inl (ReaderError err)
      | Inr records \<Rightarrow>
          (if length records < 1 then Inl (ErrorsNew ''no data found'')
           else Inr (header_loop 0 (hd records) (tl records) Map.empty)))"

text \<open>
  For stating what a column holds: the fields at index \<open>i\<close> of the records that have
  one, in the records' order.
\<close>

definition column :: "nat \<Rightarrow> string list list \<Rightarrow> string list" where
  "column i records = map (\<lambda>record. record ! i) (filter (\<lambda>record. i < length record) records)"

section \<open>What the two loops of CsvToSlice build\<close>

lemma append_rows_eq:
  "result col = Some vs \<Longrightarrow> append_rows i col records result = result(col \<mapsto> vs @ column i records)"
  by (induction records arbitrary: result vs) (auto simp: column_def)

lemma header_step:
  "append_rows i col records (result(col \<mapsto> [])) = result(col \<mapsto> column i records)"
  by (simp add: append_rows_eq)

lemma header_loop_other:
  "k \<notin> set header \<Longrightarrow> header_loop i header records result k = result k"
  by (induction header arbitrary: i result) (auto simp: header_step)

lemma header_loop_dom:
  "dom (header_loop i header records result) = dom result \<union> set header"
  by (induction header arbitrary: i result) (auto simp: header_step)

lemma header_loop_last:
  "j < length header \<Longrightarrow> \<forall>j'. j < j' \<and> j' < length header \<longrightarrow> header ! j' \<noteq> header ! j \<Longrightarrow>
   header_loop i header records result (header ! j) = Some (column (i + j) records)"
proof (induction header arbitrary: i j result)
  case Nil
  then show ?case by simp
next
  case (Cons col header)
  show ?case
  proof (cases j)
    case 0
    have "col \<notin> set header"
    proof
      assume "col \<in> set header"
      then obtain m where "m < length header" "header ! m = col" by (auto simp: in_set_conv_nth)
      with Cons.prems(2)[rule_format, of "Suc m"] 0 show False by simp
    qed
    with 0 show ?thesis by (simp add: header_loop_other header_step)
  next
    case (Suc j0)
    have "\<forall>j'. j0 < j' \<and> j' < length header \<longrightarrow> header ! j' \<noteq> header ! j0"
    proof (intro allI impI)
      fix j' assume "j0 < j' \<and> j' < length header"
      with Cons.prems(2)[rule_format, of "Suc j'"] Suc show "header ! j' \<noteq> header ! j0" by simp
    qed
    with Cons.IH[of j0 "Suc i"] Cons.prems(1) Suc show ?thesis by simp
  qed
qed

section \<open>What the reader's field count check does\<close>

lemma parseField_nonempty:
  "parseField q line rest buf fs = Inr (dst, rest') \<Longrightarrow> length fs < length dst"
proof (induction q line rest buf fs rule: parseField.induct)
  case (1 quoted line rest buf fs)
  show ?case
  proof (cases quoted)
    case False
    show ?thesis
    proof (cases "line = [] \<or> hd line \<noteq> DQ")
      case True
      with False "1.prems" "1.IH"(1) show ?thesis
        by (subst (asm) parseField.simps) (fastforce split: option.splits if_splits)
    next
      case nq: False
      with False "1.prems" "1.IH"(2) show ?thesis
        by (subst (asm) parseField.simps) (auto split: option.splits if_splits)
    qed
  next
    case True
    show ?thesis
    proof (cases "IndexByte line DQ")
      case None
      with True "1.prems" "1.IH"(3,4) show ?thesis
        by (subst (asm) parseField.simps)
          (force split: option.splits if_splits)
    next
      case (Some i)
      with True "1.prems" "1.IH"(5,6) show ?thesis
        by (subst (asm) parseField.simps) (fastforce split: if_splits)
    qed
  qed
qed

lemma readRecord_no_check:
  "readRecord (r\<lparr>FieldsPerRecord := - 1\<rparr>) = Record dst r' \<Longrightarrow>
   FieldsPerRecord r' = - 1 \<and> 0 < length dst"
  by (auto simp: readRecord_def split: option.splits sum.splits prod.splits
      dest: parseField_nonempty)

lemma readRecord_check:
  "0 < n \<Longrightarrow>
   readRecord (r\<lparr>FieldsPerRecord := n\<rparr>) =
     (case readRecord (r\<lparr>FieldsPerRecord := - 1\<rparr>) of
        EOF \<Rightarrow> EOF
      | Failed e \<Rightarrow> Failed e
      | Record dst r' \<Rightarrow>
          if int (length dst) = n then Record dst (r'\<lparr>FieldsPerRecord := n\<rparr>)
          else Failed ErrFieldCount)"
  by (auto simp: readRecord_def split: option.splits sum.splits prod.splits)

lemma readRecord_first:
  "readRecord (r\<lparr>FieldsPerRecord := 0\<rparr>) =
     (case readRecord (r\<lparr>FieldsPerRecord := - 1\<rparr>) of
        EOF \<Rightarrow> EOF
      | Failed e \<Rightarrow> Failed e
      | Record dst r' \<Rightarrow> Record dst (r'\<lparr>FieldsPerRecord := int (length dst)\<rparr>))"
  by (auto simp: readRecord_def split: option.splits sum.splits prod.splits)

lemma ReadAll_loop_acc:
  "ReadAll_loop r records =
     (case ReadAll_loop r [] of Inl e \<Rightarrow> Inl e | Inr recs \<Rightarrow> Inr (records @ recs))"
proof (induction "length (input r)" arbitrary: r records rule: less_induct)
  case less
  show ?case
  proof (cases "readRecord r")
    case EOF
    then show ?thesis by (simp add: ReadAll_loop.simps[of r])
  next
    case (Failed e)
    then show ?thesis by (simp add: ReadAll_loop.simps[of r])
  next
    case (Record dst r')
    from readRecord_rest[OF Record] have lt: "length (input r') < length (input r)" .
    from less[OF lt, of "records @ [dst]"] less[OF lt, of "[dst]"] Record
    show ?thesis by (simp add: ReadAll_loop.simps[of r] split: sum.splits)
  qed
qed

lemma ReadAll_unfold:
  "ReadAll r =
     (case readRecord r of
        EOF \<Rightarrow> Inr []
      | Failed e \<Rightarrow> Inl e
      | Record dst r' \<Rightarrow> (case ReadAll r' of Inl e \<Rightarrow> Inl e | Inr recs \<Rightarrow> Inr (dst # recs)))"
  unfolding ReadAll_def
  by (subst ReadAll_loop.simps, subst ReadAll_loop_acc) (auto split: read_result.splits sum.splits)


lemma readRecord_keeps_count:
  "0 < FieldsPerRecord r \<Longrightarrow> readRecord r = Record dst r' \<Longrightarrow>
   FieldsPerRecord r' = FieldsPerRecord r \<and> int (length dst) = FieldsPerRecord r"
  by (auto simp: readRecord_def split: option.splits sum.splits prod.splits if_splits)

lemma ReadAll_checked:
  "0 < FieldsPerRecord r \<Longrightarrow> ReadAll r = Inr recs \<Longrightarrow>
   \<forall>dst\<in>set recs. int (length dst) = FieldsPerRecord r"
proof (induction recs arbitrary: r)
  case Nil
  then show ?case by simp
next
  case (Cons a recs)
  from Cons.prems(2) obtain r' where rr: "readRecord r = Record a r'" and ra: "ReadAll r' = Inr recs"
    by (subst (asm) ReadAll_unfold) (auto split: read_result.splits sum.splits)
  from readRecord_keeps_count[OF Cons.prems(1) rr]
  have k: "FieldsPerRecord r' = FieldsPerRecord r" "int (length a) = FieldsPerRecord r" by auto
  with Cons.IH[OF _ ra] Cons.prems(1) show ?case by simp
qed

lemma readRecord_sets_count:
  "FieldsPerRecord r = 0 \<Longrightarrow> readRecord r = Record dst r' \<Longrightarrow>
   FieldsPerRecord r' = int (length dst) \<and> 0 < length dst"
  by (auto simp: readRecord_def split: option.splits sum.splits prod.splits if_splits
      dest: parseField_nonempty)

lemma ReadAll_rectangular:
  assumes "ReadAll (NewReader data) = Inr (header # rows)"
  shows "\<forall>row\<in>set rows. length row = length header" and "0 < length header"
proof -
  from assms obtain r' where rr: "readRecord (NewReader data) = Record header r'"
      and ra: "ReadAll r' = Inr rows"
    by (subst (asm) ReadAll_unfold) (auto split: read_result.splits sum.splits)
  have z: "FieldsPerRecord (NewReader data) = 0" by (simp add: NewReader_def)
  from readRecord_sets_count[OF z rr]
  have k: "FieldsPerRecord r' = int (length header)" and p: "0 < length header" by auto
  from p show "0 < length header" .
  from ReadAll_checked[OF _ ra] k p show "\<forall>row\<in>set rows. length row = length header" by simp
qed

lemma ReadAll_check_of_no_check:
  "0 < n \<Longrightarrow> FieldsPerRecord r = - 1 \<Longrightarrow> ReadAll r = Inr recs \<Longrightarrow>
   ReadAll (r\<lparr>FieldsPerRecord := n\<rparr>) =
     (if \<forall>dst\<in>set recs. int (length dst) = n then Inr recs else Inl ErrFieldCount)"
proof (induction recs arbitrary: r)
  case Nil
  have r: "r\<lparr>FieldsPerRecord := - 1\<rparr> = r" using Nil.prems(2) by simp
  from Nil.prems(3) have "readRecord r = EOF"
    by (subst (asm) ReadAll_unfold) (auto split: read_result.splits sum.splits)
  with readRecord_check[OF Nil.prems(1), of r] r show ?case
    by (subst ReadAll_unfold) simp
next
  case (Cons a recs)
  have r: "r\<lparr>FieldsPerRecord := - 1\<rparr> = r" using Cons.prems(2) by simp
  from Cons.prems(3) obtain r' where rr: "readRecord r = Record a r'" and ra: "ReadAll r' = Inr recs"
    by (subst (asm) ReadAll_unfold) (auto split: read_result.splits sum.splits)
  from readRecord_no_check[of r a r'] rr r have f: "FieldsPerRecord r' = - 1" by simp
  from readRecord_check[OF Cons.prems(1), of r] rr r
  have s: "readRecord (r\<lparr>FieldsPerRecord := n\<rparr>) =
     (if int (length a) = n then Record a (r'\<lparr>FieldsPerRecord := n\<rparr>) else Failed ErrFieldCount)"
    by simp
  show ?case
    using s Cons.IH[OF Cons.prems(1) f ra]
    by (subst ReadAll_unfold) simp
qed

lemma ReadAll_default_of_no_check:
  assumes "ReadAll \<lparr>input = data, FieldsPerRecord = - 1\<rparr> = Inr (header # rows)"
  shows "ReadAll (NewReader data) =
     (if \<forall>row\<in>set rows. length row = length header then Inr (header # rows)
      else Inl ErrFieldCount)"
proof -
  let ?r = "\<lparr>input = data, FieldsPerRecord = - 1\<rparr>"
  from assms obtain r' where rr: "readRecord ?r = Record header r'" and ra: "ReadAll r' = Inr rows"
    by (subst (asm) ReadAll_unfold) (auto split: read_result.splits sum.splits)
  have e: "?r\<lparr>FieldsPerRecord := - 1\<rparr> = ?r" "?r\<lparr>FieldsPerRecord := 0\<rparr> = NewReader data"
    by (simp_all add: NewReader_def)
  from readRecord_no_check[of ?r header r'] rr e
  have f: "FieldsPerRecord r' = - 1" and p: "0 < length header" by simp_all
  from readRecord_first[of ?r] rr e
  have s: "readRecord (NewReader data) = Record header (r'\<lparr>FieldsPerRecord := int (length header)\<rparr>)"
    by simp
  from p have p': "0 < int (length header)" by simp
  show ?thesis
    using s ReadAll_check_of_no_check[OF p' f ra]
    by (subst ReadAll_unfold) (auto split: sum.splits)
qed

section \<open>Evaluating the reader, and two facts on lists\<close>

text \<open>The definitions a concrete input is evaluated with.\<close>

lemmas csv_eval = CsvToSlice_def ReadAll_def NewReader_def ReadAll_loop.simps readRecord_def
  nextLine.simps readLine_def dropTrailingCR_def normalizeCRLF_def lengthNL_def
  parseField.simps IndexByte_def

lemma last_occurrence:
  assumes "i < length xs"
  shows "\<exists>j. j < length xs \<and> xs ! j = xs ! i \<and>
             (\<forall>j'. j < j' \<and> j' < length xs \<longrightarrow> xs ! j' \<noteq> xs ! j)"
proof -
  let ?S = "{j. j < length xs \<and> xs ! j = xs ! i}"
  have fin: "finite ?S" by simp
  have ne: "?S \<noteq> {}" using assms by auto
  from Max_in[OF fin ne] have m: "Max ?S < length xs" "xs ! Max ?S = xs ! i" by auto
  have "\<forall>j'. Max ?S < j' \<and> j' < length xs \<longrightarrow> xs ! j' \<noteq> xs ! Max ?S"
  proof (intro allI impI notI)
    fix j' assume a: "Max ?S < j' \<and> j' < length xs" and e: "xs ! j' = xs ! Max ?S"
    with m have "j' \<in> ?S" by simp
    from Max_ge[OF fin this] a show False by simp
  qed
  with m show ?thesis by blast
qed

lemma column_rectangular:
  "\<forall>row\<in>set rows. length row = n \<Longrightarrow> j < n \<Longrightarrow> column j rows = map (\<lambda>row. row ! j) rows"
  by (simp add: column_def)

section \<open>Plain CSV text and what the reader makes of it\<close>

text \<open>
  Plain CSV text, for stating what the reader does with it: a cell is plain when it holds
  no comma, quote, line feed or carriage return; a record is written as its cells joined
  by commas, and a text as its records, each ended by a line feed.
\<close>

definition plain :: "string \<Rightarrow> bool" where
  "plain cell = (list_all (\<lambda>c. c \<noteq> Comma \<and> c \<noteq> DQ \<and> c \<noteq> NL \<and> c \<noteq> CR) cell)"

fun join_cells :: "string list \<Rightarrow> string" where
  "join_cells [] = []"
| "join_cells [cell] = cell"
| "join_cells (cell # cells) = cell @ Comma # join_cells cells"

definition csv_text :: "string list list \<Rightarrow> string" where
  "csv_text records = concat (map (\<lambda>record. join_cells record @ [NL]) records)"

lemma ReadSlice_line:
  "NL \<notin> set l \<Longrightarrow> ReadSlice (l @ NL # rest) = (l @ [NL], rest, False)"
  by (induction l) auto

lemma readLine_line:
  assumes "NL \<notin> set l" and "CR \<notin> set l"
  shows "readLine (l @ NL # rest) = Some (l @ [NL], rest)"
proof -
  have n: "normalizeCRLF (l @ [NL]) = l @ [NL]"
  proof (cases l rule: rev_cases)
    case Nil
    then show ?thesis by (simp add: normalizeCRLF_def)
  next
    case (snoc ys y)
    with assms(2) have "y \<noteq> CR" by auto
    with snoc show ?thesis by (simp add: normalizeCRLF_def nth_append)
  qed
  show ?thesis
    using ReadSlice_line[OF assms(1), of rest] n
    by (simp add: readLine_def dropTrailingCR_def)
qed

lemma nextLine_line:
  assumes "NL \<notin> set l" and "CR \<notin> set l" and "l \<noteq> []"
  shows "nextLine (l @ NL # rest) = Some (l @ [NL], rest)"
  using readLine_line[OF assms(1,2), of rest] assms(3)
  by (subst nextLine.simps) (simp add: lengthNL_def)

lemma nextLine_end: "nextLine [] = None"
  by (subst nextLine.simps) (simp add: readLine_def)

lemma plain_set: "plain cell \<Longrightarrow> Comma \<notin> set cell \<and> DQ \<notin> set cell \<and> NL \<notin> set cell \<and> CR \<notin> set cell"
  by (auto simp: plain_def list_all_iff)

lemma IndexByte_none: "c \<notin> set b \<Longrightarrow> IndexByte b c = None"
  by (simp add: IndexByte_def)

lemma IndexByte_first:
  assumes "c \<notin> set b"
  shows "IndexByte (b @ c # rest) c = Some (length b)"
proof -
  have "takeWhile (\<lambda>x. x \<noteq> c) (b @ c # rest) = takeWhile (\<lambda>x. x \<noteq> c) b"
    by (simp add: takeWhile_tail)
  also have "\<dots> = b" using assms by (auto simp: takeWhile_eq_all_conv)
  finally show ?thesis by (simp add: IndexByte_def)
qed

lemma parseField_last_cell:
  assumes "plain cell"
  shows "parseField False (cell @ [NL]) rest buf fs = Inr (fs @ [cell], rest)"
proof -
  from plain_set[OF assms] have c: "Comma \<notin> set cell" and q: "DQ \<notin> set cell" by auto
  have h: "cell @ [NL] = [] \<or> hd (cell @ [NL]) \<noteq> DQ"
    using q by (cases cell) auto
  have i: "IndexByte (cell @ [NL]) Comma = None"
    using c by (simp add: IndexByte_none)
  show ?thesis
    using h i q by (subst parseField.simps) (simp add: lengthNL_def)
qed

lemma parseField_cell:
  assumes "plain cell"
  shows "parseField False (cell @ Comma # after) rest buf fs =
         parseField False after rest [] (fs @ [cell])"
proof -
  from plain_set[OF assms] have c: "Comma \<notin> set cell" and q: "DQ \<notin> set cell" by auto
  have h: "cell @ Comma # after = [] \<or> hd (cell @ Comma # after) \<noteq> DQ"
    using q by (cases cell) auto
  have i: "IndexByte (cell @ Comma # after) Comma = Some (length cell)"
    using c by (rule IndexByte_first)
  show ?thesis
    using h i q by (subst parseField.simps) simp
qed

lemma parseField_cells:
  "list_all plain cells \<Longrightarrow> cells \<noteq> [] \<Longrightarrow>
   parseField False (join_cells cells @ [NL]) rest buf fs = Inr (fs @ cells, rest)"
proof (induction cells arbitrary: buf fs rule: join_cells.induct)
  case 1
  then show ?case by simp
next
  case (2 cell)
  then show ?case by (simp add: parseField_last_cell)
next
  case (3 cell v va)
  from "3.prems" have p: "plain cell" and ps: "list_all plain (v # va)" by simp_all
  have "parseField False (join_cells (cell # v # va) @ [NL]) rest buf fs =
        parseField False (join_cells (v # va) @ [NL]) rest [] (fs @ [cell])"
    using parseField_cell[OF p, of "join_cells (v # va) @ [NL]" rest buf fs] by simp
  also have "\<dots> = Inr ((fs @ [cell]) @ v # va, rest)"
    using ps by (intro "3.IH") simp_all
  finally show ?case by simp
qed

lemma join_cells_plain:
  "list_all plain cells \<Longrightarrow> NL \<notin> set (join_cells cells) \<and> CR \<notin> set (join_cells cells)"
  by (induction cells rule: join_cells.induct) (auto dest: plain_set)

lemma join_cells_empty: "join_cells cells = [] \<longleftrightarrow> cells = [] \<or> cells = [[]]"
  by (induction cells rule: join_cells.induct) auto

text \<open>A record that is written as a line of its own: it has a cell, and not just one empty cell.\<close>

definition writable :: "string list \<Rightarrow> bool" where
  "writable record = (list_all plain record \<and> record \<noteq> [] \<and> record \<noteq> [[]])"

lemma readRecord_csv_text:
  assumes "writable record"
  shows "readRecord \<lparr>input = csv_text (record # records), FieldsPerRecord = - 1\<rparr> =
         Record record \<lparr>input = csv_text records, FieldsPerRecord = - 1\<rparr>"
proof -
  from assms have p: "list_all plain record" and ne: "record \<noteq> []" and j: "join_cells record \<noteq> []"
    by (auto simp: writable_def join_cells_empty)
  from join_cells_plain[OF p] have n: "NL \<notin> set (join_cells record)" "CR \<notin> set (join_cells record)"
    by auto
  have t: "csv_text (record # records) = join_cells record @ NL # csv_text records"
    by (simp add: csv_text_def)
  show ?thesis
    using nextLine_line[OF n j, of "csv_text records"]
      parseField_cells[OF p ne, of "csv_text records" "[]" "[]"]
    by (simp add: readRecord_def t)
qed

lemma ReadAll_csv_text_no_check:
  "list_all writable records \<Longrightarrow>
   ReadAll \<lparr>input = csv_text records, FieldsPerRecord = - 1\<rparr> = Inr records"
proof (induction records)
  case Nil
  show ?case by (subst ReadAll_unfold) (simp add: readRecord_def csv_text_def nextLine_end)
next
  case (Cons r rs)
  then show ?case
    by (subst ReadAll_unfold) (simp add: readRecord_csv_text)
qed

text \<open>
  Plain rectangular CSV text is read back as the records it was written from, cell by
  cell and byte by byte.
\<close>

lemma ReadAll_csv_text:
  assumes "list_all writable (header # rows)"
    and "\<forall>row\<in>set rows. length row = length header"
  shows "ReadAll (NewReader (csv_text (header # rows))) = Inr (header # rows)"
  using ReadAll_default_of_no_check[OF ReadAll_csv_text_no_check[OF assms(1)]] assms(2)
  by simp

lemma CsvToSlice_csv_text:
  assumes "list_all writable (header # rows)"
    and "\<forall>row\<in>set rows. length row = length header"
    and "distinct header" and "i < length header"
  shows "\<exists>t. CsvToSlice (csv_text (header # rows)) = Inr t \<and> dom t = set header \<and>
             t (header ! i) = Some (map (\<lambda>row. row ! i) rows)"
proof -
  let ?t = "header_loop 0 header rows Map.empty"
  have t: "CsvToSlice (csv_text (header # rows)) = Inr ?t"
    using ReadAll_csv_text[OF assms(1,2)] by (simp add: CsvToSlice_def)
  have l: "\<forall>j'. i < j' \<and> j' < length header \<longrightarrow> header ! j' \<noteq> header ! i"
    using assms(3,4) by (auto simp: distinct_conv_nth)
  have c: "?t (header ! i) = Some (map (\<lambda>row. row ! i) rows)"
    using header_loop_last[OF assms(4) l, of 0 rows Map.empty]
      column_rectangular[OF assms(2,4)] by simp
  from t c show ?thesis by (simp add: header_loop_dom)
qed

lemma ReadAll_blank: "ReadAll (NewReader (replicate n NL)) = Inr []"
proof -
  have "nextLine (replicate n NL) = None"
  proof (induction n)
    case 0
    show ?case by (simp add: nextLine_end)
  next
    case (Suc n)
    have "readLine (NL # replicate n NL) = Some ([NL], replicate n NL)"
      using readLine_line[of "[]" "replicate n NL"] by simp
    with Suc show ?case by (subst nextLine.simps) (simp add: lengthNL_def)
  qed
  then show ?thesis
    by (subst ReadAll_unfold) (simp add: readRecord_def NewReader_def)
qed

section \<open>Claims about CsvToSlice\<close>

text \<open>
  Claim C1: an input with a header row and a later row of fewer fields is parsed without
  error, and the short row gives a value to each column within its field count and
  nothing to the columns it lacks.

  The column loop is written for exactly that: its guard \<^verbatim>\<open>i < len(record)\<close>
  (main.go, line 57) passes over a record that lacks the column. Run on the records of
  the specification's example, header \<^verbatim>\<open>a,b,c\<close> and row \<^verbatim>\<open>1,2\<close>, the two
  loops build the table the claim describes.
\<close>

lemma header_loop_short_row:
  "header_loop 0 [''a'', ''b'', ''c''] [[''1'', ''2'']] Map.empty ''a'' = Some [''1''] \<and>
   header_loop 0 [''a'', ''b'', ''c''] [[''1'', ''2'']] Map.empty ''b'' = Some [''2''] \<and>
   header_loop 0 [''a'', ''b'', ''c''] [[''1'', ''2'']] Map.empty ''c'' = Some []"
  by simp

text \<open>
  The loop is never given such records. The reader is left as \<^verbatim>\<open>csv.NewReader\<close>
  makes it, with \<^verbatim>\<open>FieldsPerRecord = 0\<close>, so it takes the header's field count as
  the count every later record must have, \<^verbatim>\<open>ReadAll\<close> returns its
  wrong-number-of-fields error for the short row, and \<^verbatim>\<open>CsvToSlice\<close> returns that
  error (main.go, lines 43-45) before the column loop runs: the guard of line 57 is never
  false. On the specification's example \<^verbatim>\<open>CsvToSlice\<close> fails.
\<close>

lemma CsvToSlice_short_row_example:
  "ReadAll \<lparr>input = ''a,b,c'' @ [NL] @ ''1,2'' @ [NL], FieldsPerRecord = - 1\<rparr>
     = Inr [[''a'', ''b'', ''c''], [''1'', ''2'']] \<and>
   CsvToSlice (''a,b,c'' @ [NL] @ ''1,2'' @ [NL]) = Inl (ReaderError ErrFieldCount)"
  by (simp add: csv_eval)

text \<open>
  Claim C1, what the code does where the claim promises a table: whenever the input, read
  with the field count check switched off, is a header row followed by data rows of which
  one has fewer fields than the header, \<^verbatim>\<open>CsvToSlice\<close> returns the reader's
  wrong-number-of-fields error and no table. The code falls short of the claim here.
\<close>

theorem CsvToSlice_short_row:
  assumes "ReadAll \<lparr>input = data, FieldsPerRecord = - 1\<rparr> = Inr (header # rows)"
    and "row \<in> set rows" and "length row < length header"
  shows "CsvToSlice data = Inl (ReaderError ErrFieldCount)"
proof -
  from assms(3) have "length row \<noteq> length header" by simp
  with assms(2) have "\<not> (\<forall>row\<in>set rows. length row = length header)" by blast
  with ReadAll_default_of_no_check[OF assms(1)]
  have "ReadAll (NewReader data) = Inl ErrFieldCount" by simp
  then show ?thesis by (simp add: CsvToSlice_def)
qed

theorem CsvToSlice_short_row_witness:
  "ReadAll \<lparr>input = ''a,b,c'' @ [NL] @ ''1,2,3'' @ [NL] @ ''4,5'' @ [NL], FieldsPerRecord = - 1\<rparr>
     = Inr ([''a'', ''b'', ''c''] # [[''1'', ''2'', ''3''], [''4'', ''5'']]) \<and>
   CsvToSlice (''a,b,c'' @ [NL] @ ''1,2,3'' @ [NL] @ ''4,5'' @ [NL]) = Inl (ReaderError ErrFieldCount)"
proof -
  have h: "ReadAll \<lparr>input = ''a,b,c'' @ [NL] @ ''1,2,3'' @ [NL] @ ''4,5'' @ [NL], FieldsPerRecord = - 1\<rparr>
     = Inr ([''a'', ''b'', ''c''] # [[''1'', ''2'', ''3''], [''4'', ''5'']])"
    by (simp add: csv_eval)
  from h CsvToSlice_short_row[OF h, of "[''4'', ''5'']"] show ?thesis by simp
qed

text \<open>
  Claim C6: for every text the reader accepts as a header followed by data rows (it accepts
  rectangular input only), \<^verbatim>\<open>CsvToSlice\<close> returns a table whose keys are exactly
  the header's names; the entry of each header name has as many cells as there are
  data rows holding that column index, and its cells are the rows' fields at one column
  of that name, as the reader returned them: nothing is trimmed or converted. (For plain
  rectangular text the reader's fields are the cells as written, see the section on plain
  CSV text.)
\<close>

theorem CsvToSlice_well_formed:
  assumes "ReadAll (NewReader data) = Inr (header # rows)"
  shows "\<exists>t. CsvToSlice data = Inr t \<and> dom t = set header \<and>
     (\<forall>i<length header. \<exists>vs j.
        t (header ! i) = Some vs \<and>
        length vs = length (filter (\<lambda>row. i < length row) rows) \<and>
        j < length header \<and> header ! j = header ! i \<and> vs = map (\<lambda>row. row ! j) rows)"
proof -
  let ?t = "header_loop 0 header rows Map.empty"
  have t: "CsvToSlice data = Inr ?t" using assms by (simp add: CsvToSlice_def)
  have d: "dom ?t = set header" by (simp add: header_loop_dom)
  note rect = ReadAll_rectangular(1)[OF assms]
  have cols: "\<exists>vs j. ?t (header ! i) = Some vs \<and>
        length vs = length (filter (\<lambda>row. i < length row) rows) \<and>
        j < length header \<and> header ! j = header ! i \<and> vs = map (\<lambda>row. row ! j) rows"
    if i: "i < length header" for i
  proof -
    from last_occurrence[OF i] obtain j where j: "j < length header" "header ! j = header ! i"
      and l: "\<forall>j'. j < j' \<and> j' < length header \<longrightarrow> header ! j' \<noteq> header ! j" by blast
    from header_loop_last[OF j(1) l, of 0 rows Map.empty] j(2)
    have v: "?t (header ! i) = Some (column j rows)" by simp
    have c: "column j rows = map (\<lambda>row. row ! j) rows"
      using column_rectangular[OF rect j(1)] .
    have f: "filter (\<lambda>row. i < length row) rows = rows" using rect i by (simp add: filter_id_conv)
    from v c f j show ?thesis
      by (intro exI[of _ "column j rows"] exI[of _ j]) simp
  qed
  from t d cols show ?thesis by blast
qed

theorem CsvToSlice_well_formed_witness:
  "\<exists>t. CsvToSlice (''name,n'' @ [NL] @ '' Ann ,007'' @ [NL] @ ''bob, 1.50'' @ [NL]) = Inr t \<and>
       dom t = {''name'', ''n''} \<and>
       t ''name'' = Some ['' Ann '', ''bob''] \<and> t ''n'' = Some [''007'', '' 1.50'']"
proof -
  let ?data = "''name,n'' @ [NL] @ '' Ann ,007'' @ [NL] @ ''bob, 1.50'' @ [NL]"
  let ?header = "[''name'', ''n'']"
  let ?rows = "[['' Ann '', ''007''], [''bob'', '' 1.50'']]"
  have h: "ReadAll (NewReader ?data) = Inr (?header # ?rows)"
    by (simp add: csv_eval)
  from CsvToSlice_well_formed[OF h] obtain t where t: "CsvToSlice ?data = Inr t"
    and d: "dom t = set ?header"
    and c: "\<forall>i<length ?header. \<exists>vs j.
        t (?header ! i) = Some vs \<and>
        length vs = length (filter (\<lambda>row. i < length row) ?rows) \<and>
        j < length ?header \<and> ?header ! j = ?header ! i \<and> vs = map (\<lambda>row. row ! j) ?rows"
    by blast
  have two: "length ?header = 2" by simp
  obtain vs j where v: "t (?header ! 0) = Some vs" "j < 2" "?header ! j = ?header ! 0"
      "vs = map (\<lambda>row. row ! j) ?rows"
    using c[rule_format, of 0] unfolding two by auto
  from v(2,3) have "j = 0" by (cases j) auto
  with v have c0: "t ''name'' = Some ['' Ann '', ''bob'']" by simp
  obtain ws k where w: "t (?header ! 1) = Some ws" "k < 2" "?header ! k = ?header ! 1"
      "ws = map (\<lambda>row. row ! k) ?rows"
    using c[rule_format, of 1] unfolding two by auto
  from w(2,3) have "k = 1" by (cases k) auto
  with w have c1: "t ''n'' = Some [''007'', '' 1.50'']" by simp
  from t d c0 c1 show ?thesis by auto
qed

text \<open>
  Claim C7: a text in which the reader finds no record at all (no header row) makes
  \<^verbatim>\<open>CsvToSlice\<close> fail with the error "no data found" instead of returning a table.
\<close>

theorem CsvToSlice_no_rows:
  "ReadAll (NewReader data) = Inr [] \<Longrightarrow> CsvToSlice data = Inl (ErrorsNew ''no data found'')"
  by (simp add: CsvToSlice_def)

theorem CsvToSlice_no_rows_witness:
  "ReadAll (NewReader [NL, CR, NL]) = Inr [] \<and>
   CsvToSlice [NL, CR, NL] = Inl (ErrorsNew ''no data found'')"
proof -
  have h: "ReadAll (NewReader [NL, CR, NL]) = Inr []"
    by (simp add: csv_eval)
  from h CsvToSlice_no_rows[OF h] show ?thesis by simp
qed

text \<open>
  Claim C8, as the specification states it: the table's keys are unique and enumerate in
  the order of the header's fields.

  The table is a Go map, which has no order of its own: the two inputs below have their
  columns in opposite orders, as the reader's records show, and yield the same table, so
  no enumeration of a table's keys can give back the header's order.
\<close>

theorem CsvToSlice_keys_counterexample:
  "CsvToSlice (''a,b'' @ [NL] @ ''1,2'' @ [NL]) = CsvToSlice (''b,a'' @ [NL] @ ''2,1'' @ [NL]) \<and>
   ReadAll (NewReader (''a,b'' @ [NL] @ ''1,2'' @ [NL])) = Inr [[''a'', ''b''], [''1'', ''2'']] \<and>
   ReadAll (NewReader (''b,a'' @ [NL] @ ''2,1'' @ [NL])) = Inr [[''b'', ''a''], [''2'', ''1'']]"
proof -
  have a: "ReadAll (NewReader (''a,b'' @ [NL] @ ''1,2'' @ [NL])) = Inr [[''a'', ''b''], [''1'', ''2'']]"
    by (simp add: csv_eval)
  have b: "ReadAll (NewReader (''b,a'' @ [NL] @ ''2,1'' @ [NL])) = Inr [[''b'', ''a''], [''2'', ''1'']]"
    by (simp add: csv_eval)
  have t: "header_loop 0 [''a'', ''b''] [[''1'', ''2'']] Map.empty =
           header_loop 0 [''b'', ''a''] [[''2'', ''1'']] Map.empty"
    by (rule ext) simp
  have "CsvToSlice (''a,b'' @ [NL] @ ''1,2'' @ [NL]) = CsvToSlice (''b,a'' @ [NL] @ ''2,1'' @ [NL])"
    unfolding CsvToSlice_def a b using t by simp
  with a b show ?thesis by simp
qed

text \<open>
  Claim C8, amended: a table that \<^verbatim>\<open>CsvToSlice\<close> returns comes from a header row,
  and its keys are exactly the names in that header, each name once (so there are at most
  as many keys as header fields); the table records no order of the keys.
\<close>

theorem CsvToSlice_keys:
  assumes "CsvToSlice data = Inr t"
  shows "\<exists>header rows. ReadAll (NewReader data) = Inr (header # rows) \<and>
           dom t = set header \<and> card (dom t) \<le> length header"
proof -
  from assms obtain records where r: "ReadAll (NewReader data) = Inr records"
    and n: "\<not> length records < 1" and t: "t = header_loop 0 (hd records) (tl records) Map.empty"
    by (auto simp: CsvToSlice_def split: sum.splits if_splits)
  from n obtain header rows where e: "records = header # rows" by (cases records) auto
  have "dom t = set header" using t e by (simp add: header_loop_dom)
  moreover have "card (set header) \<le> length header" by (rule card_length)
  ultimately show ?thesis using r e by auto
qed

theorem CsvToSlice_keys_witness:
  "\<exists>t header rows. CsvToSlice (''b,a,b'' @ [NL] @ ''2,1,3'' @ [NL]) = Inr t \<and>
      ReadAll (NewReader (''b,a,b'' @ [NL] @ ''2,1,3'' @ [NL])) = Inr (header # rows) \<and>
      dom t = set header \<and> card (dom t) \<le> length header \<and> header = [''b'', ''a'', ''b'']"
proof -
  let ?data = "''b,a,b'' @ [NL] @ ''2,1,3'' @ [NL]"
  have h: "ReadAll (NewReader ?data) = Inr [[''b'', ''a'', ''b''], [''2'', ''1'', ''3'']]"
    by (simp add: csv_eval)
  then obtain t where t: "CsvToSlice ?data = Inr t" by (simp add: CsvToSlice_def)
  from CsvToSlice_keys[OF t] obtain header rows
    where r: "ReadAll (NewReader ?data) = Inr (header # rows)"
      and d: "dom t = set header" and c: "card (dom t) \<le> length header" by blast
  from r h have e: "header = [''b'', ''a'', ''b'']" by simp
  from t r d c e show ?thesis by blast
qed

text \<open>
  Claim C10: when a name stands at several positions of the header, the table has one
  entry for it, and the entry holds the values collected for the name's last position:
  for every position \<open>j\<close> after which the name does not occur again, the entry of
  \<open>header ! j\<close> is column \<open>j\<close> of the data rows.
\<close>

theorem CsvToSlice_duplicate_header:
  assumes "ReadAll (NewReader data) = Inr (header # rows)"
    and "j < length header"
    and "\<forall>j'. j < j' \<and> j' < length header \<longrightarrow> header ! j' \<noteq> header ! j"
  shows "\<exists>t. CsvToSlice data = Inr t \<and> t (header ! j) = Some (column j rows)"
  using assms header_loop_last[OF assms(2,3), of 0 rows Map.empty]
  by (simp add: CsvToSlice_def)

theorem CsvToSlice_duplicate_header_witness:
  "\<exists>t. CsvToSlice (''a,b,a'' @ [NL] @ ''1,2,3'' @ [NL] @ ''4,5,6'' @ [NL]) = Inr t \<and>
       t ''a'' = Some [''3'', ''6''] \<and> t ''b'' = Some [''2'', ''5'']"
proof -
  let ?data = "''a,b,a'' @ [NL] @ ''1,2,3'' @ [NL] @ ''4,5,6'' @ [NL]"
  let ?header = "[''a'', ''b'', ''a'']"
  let ?rows = "[[''1'', ''2'', ''3''], [''4'', ''5'', ''6'']]"
  have h: "ReadAll (NewReader ?data) = Inr (?header # ?rows)"
    by (simp add: csv_eval)
  have l2: "\<forall>j'. 2 < j' \<and> j' < length ?header \<longrightarrow> ?header ! j' \<noteq> ?header ! 2" by simp
  have l1: "\<forall>j'. 1 < j' \<and> j' < length ?header \<longrightarrow> ?header ! j' \<noteq> ?header ! 1"
    by (simp add: nth_Cons split: nat.splits)
  have j2: "2 < length ?header" and j1: "1 < length ?header" by simp_all
  from CsvToSlice_duplicate_header[OF h j2 l2] obtain t
    where t: "CsvToSlice ?data = Inr t" and a: "t (?header ! 2) = Some (column 2 ?rows)" by blast
  from CsvToSlice_duplicate_header[OF h j1 l1] obtain u
    where u: "CsvToSlice ?data = Inr u" and b: "u (?header ! 1) = Some (column 1 ?rows)" by blast
  from t u have e: "u = t" by simp
  have ca: "column 2 ?rows = [''3'', ''6'']" and cb: "column 1 ?rows = [''2'', ''5'']"
    by (simp_all add: column_def)
  from a ca have a': "t ''a'' = Some [''3'', ''6'']" by simp
  from b cb e have b': "t ''b'' = Some [''2'', ''5'']" by simp
  from t a' b' show ?thesis by blast
qed

section \<open>ConnectAIModel\<close>

text \<open>
  The structs of main.go, lines 26-37. \<^verbatim>\<open>Inputs\<close> is the payload sent to the model,
  \<^verbatim>\<open>Response\<close> the decoded answer.
\<close>

record Inputs =
  Table :: table
  Query :: string

record Response =
  Answer :: string
  Coordinates :: "int list list"
  Cells :: "string list"
  Aggregator :: string

text \<open>
  What \<^verbatim>\<open>ConnectAIModel\<close> uses of a \<^verbatim>\<open>*http.Request\<close> and of a
  \<^verbatim>\<open>*http.Response\<close>. \<^verbatim>\<open>Body\<close> is a stream: what has been read from it is gone.
\<close>

record Request =
  Method :: string
  URL :: string
  Header :: "(string \<times> string) list"
  Payload :: string

record HttpResponse =
  StatusCode :: int
  Status :: string
  Body :: string

text \<open>
  A value of Go's \<^verbatim>\<open>interface{}\<close> as \<^verbatim>\<open>json.Unmarshal\<close> builds it, as far as the
  type assertion \<^verbatim>\<open>.(float64)\<close> tells values apart: a JSON number is a
  \<^verbatim>\<open>float64\<close> (finite, so a real number here), anything else is not.
\<close>

datatype json_value = Float64 real | NotFloat64

text \<open>
  The library calls of \<^verbatim>\<open>ConnectAIModel\<close>, taken as parameters. An error of a
  library is kept as its message.
  \<^item> \<open>Marshal\<close>: \<^verbatim>\<open>json.Marshal(payload)\<close>;
  \<^item> \<open>Do\<close>: \<^verbatim>\<open>c.Client.Do(req)\<close>; the first argument counts the calls made before,
    so that the transport may answer each attempt differently;
  \<^item> \<open>Decode\<close>: \<^verbatim>\<open>json.NewDecoder(resp.Body).Decode(&aiResponse)\<close>, from the body text;
  \<^item> \<open>Unmarshal\<close>: \<^verbatim>\<open>json.Unmarshal(body, &result)\<close> into a
    \<^verbatim>\<open>map[string]interface{}\<close>, \<open>None\<close> when it returns an error.
\<close>

record Libraries =
  Marshal :: "Inputs \<Rightarrow> string + string"
  Do :: "nat \<Rightarrow> Request \<Rightarrow> string + HttpResponse"
  Decode :: "string \<Rightarrow> string + Response"
  Unmarshal :: "string \<Rightarrow> (string \<rightharpoonup> json_value) option"

text \<open>
  The errors \<^verbatim>\<open>ConnectAIModel\<close> returns: a library's error passed on as it is
  (lines 70-72, 85-87, 92-94), or one made with \<^verbatim>\<open>fmt.Errorf\<close> (lines 111, 114),
  which is its message.
\<close>

datatype go_error =
  MarshalError string | TransportError string | DecodeError string | Errorf string

fun Error :: "go_error \<Rightarrow> string" where
  "Error (MarshalError m) = m"
| "Error (TransportError m) = m"
| "Error (DecodeError m) = m"
| "Error (Errorf m) = m"

text \<open>
  What a call of \<^verbatim>\<open>ConnectAIModel\<close> does: the value or error it returns, the number
  of requests it has sent (calls of \<^verbatim>\<open>c.Client.Do\<close>), and the estimated times it has
  slept for, in order (\<^verbatim>\<open>time.Sleep(time.Duration(estimatedTime) * time.Second)\<close>; the
  conversion of the float to a duration is not modelled).
\<close>

record Outcome =
  returned :: "go_error + Response"
  requests :: nat
  sleeps :: "real list"

definition maxRetries :: nat where
  "maxRetries = 10"

definition url :: string where
  "url = ''https://api-inference.huggingface.co/models/google/tapas-base-finetuned-wtq''"

text \<open>
  Lines 74-79: the request. \<^verbatim>\<open>http.NewRequest\<close> fails on a method or URL that is
  not well formed only; both are constants here, so its error branch is never taken.
\<close>

definition NewRequest :: "string \<Rightarrow> string \<Rightarrow> Request" where
  "NewRequest token data =
     \<lparr>Method = ''POST'', URL = url,
      Header = [(''Authorization'', ''Bearer '' @ token), (''Content-Type'', ''application/json'')],
      Payload = data\<rparr>"

text \<open>
  \<^verbatim>\<open>ioutil.ReadAll\<close> on a body stream: everything left in the stream, and the stream
  after it, which is empty. Its error is dropped in main.go (\<^verbatim>\<open>body, _ :=\<close>).
\<close>

definition ioutil_ReadAll :: "string \<Rightarrow> string \<times> string" where
  "ioutil_ReadAll stream = (stream, [])"

text \<open>
  Lines 101-102: the body is JSON and its \<^verbatim>\<open>estimated_time\<close> is a
  \<^verbatim>\<open>float64\<close>. A key the map does not hold gives nil, which is no \<^verbatim>\<open>float64\<close>.
\<close>

definition estimatedTime :: "Libraries \<Rightarrow> string \<Rightarrow> real option" where
  "estimatedTime L body =
     (case Unmarshal L body of
        None \<Rightarrow> None
      | Some result \<Rightarrow>
          (case result ''estimated_time'' of
             Some (Float64 t) \<Rightarrow> Some t
           | Some NotFloat64 \<Rightarrow> None
           | None \<Rightarrow> None))"

text \<open>
  Lines 110-111: what is left of the body stream is read and the error is made from the
  status line and the text read.
\<close>

definition failed :: "HttpResponse \<Rightarrow> string \<Rightarrow> nat \<Rightarrow> real list \<Rightarrow> Outcome" where
  "failed resp stream n slept =
     (case ioutil_ReadAll stream of
        (body, _) \<Rightarrow>
          \<lparr>returned = Inl (Errorf (''failed to connect to AI model, status: '' @ Status resp @
                                    '', response: '' @ body)),
           requests = n, sleeps = slept\<rparr>)"

text \<open>
  The retry loop, lines 82-114. \<open>i\<close> is the loop counter, which is also the number of
  requests sent so far; \<open>slept\<close> the estimated times slept for so far.
\<close>

function retry_loop :: "Libraries \<Rightarrow> Request \<Rightarrow> nat \<Rightarrow> real list \<Rightarrow> Outcome" where
  "retry_loop L req i slept =
     (if i < maxRetries then
        (case Do L i req of
           Inl err \<Rightarrow> \<lparr>returned = Inl (TransportError err), requests = Suc i, sleeps = slept\<rparr>
         | Inr resp \<Rightarrow>
             (if StatusCode resp = 200 then
                (case Decode L (Body resp) of
                   Inl err \<Rightarrow>
                     \<lparr>returned = Inl (DecodeError err), requests = Suc i, sleeps = slept\<rparr>
                 | Inr aiResponse \<Rightarrow>
                     \<lparr>returned = Inr aiResponse, requests = Suc i, sleeps = slept\<rparr>)
              else if StatusCode resp = 503 then
                (case ioutil_ReadAll (Body resp) of
                   (body, stream) \<Rightarrow>
                     (case estimatedTime L body of
                        Some t \<Rightarrow> retry_loop L req (Suc i) (slept @ [t])
                      | None \<Rightarrow> failed resp stream (Suc i) slept))
              else failed resp (Body resp) (Suc i) slept))
      else \<lparr>returned = Inl (Errorf ''max retries reached, failed to connect to AI model''),
            requests = i, sleeps = slept\<rparr>)"
  by pat_completeness auto
termination
  by (relation "measure (\<lambda>(L, req, i, slept). maxRetries - i)") auto

declare retry_loop.simps [simp del]

definition ConnectAIModel :: "Libraries \<Rightarrow> Inputs \<Rightarrow> string \<Rightarrow> Outcome" where
  "ConnectAIModel L payload token =
     (case Marshal L payload of
        Inl err \<Rightarrow> \<lparr>returned = Inl (MarshalError err), requests = 0, sleeps = []\<rparr>
      | Inr data \<Rightarrow> retry_loop L (NewRequest token data) 0 [])"

section \<open>The handler of POST /query\<close>

text \<open>
  \<^verbatim>\<open>c.PostForm(key)\<close>: the first value the form holds for the key, the empty string
  when it holds none.
\<close>

definition PostForm :: "(string \<rightharpoonup> string list) \<Rightarrow> string \<Rightarrow> string" where
  "PostForm form key = (case form key of None \<Rightarrow> [] | Some [] \<Rightarrow> [] | Some (v # _) \<Rightarrow> v)"

text \<open>
  What \<^verbatim>\<open>c.HTML(code, name, obj)\<close> is called with; \<open>obj\<close> is the \<^verbatim>\<open>gin.H\<close>
  map, whose values here are a string, the coordinates or the cells.
\<close>

datatype gin_value = Str string | Coords "int list list" | Strs "string list"

record Page =
  code :: int
  name :: string
  obj :: "string \<rightharpoonup> gin_value"

text \<open>
  What one request to the handler does: the page it renders, and the calls of
  \<^verbatim>\<open>ConnectAIModel\<close> it has made, each with what that call did.
\<close>

record Handled =
  page :: Page
  calls :: "Outcome list"

text \<open>The handler, main.go lines 174-200, with the table and the token of \<^verbatim>\<open>main\<close>.\<close>

definition query_handler ::
  "Libraries \<Rightarrow> table \<Rightarrow> string \<Rightarrow> (string \<rightharpoonup> string list) \<Rightarrow> Handled" where
  "query_handler L tbl token form =
     (let query = PostForm form ''query'' in
      if query = [] then
        \<lparr>page = \<lparr>code = 400, name = ''index.html'',
                  obj = [''error'' \<mapsto> Str ''Query cannot be empty'']\<rparr>,
         calls = []\<rparr>
      else
        (let out = ConnectAIModel L \<lparr>Table = tbl, Query = query\<rparr> token in
         case returned out of
           Inl err \<Rightarrow>
             \<lparr>page = \<lparr>code = 500, name = ''index.html'',
                       obj = [''error'' \<mapsto> Str (''Error connecting to AI model: '' @ Error err)]\<rparr>,
              calls = [out]\<rparr>
         | Inr response \<Rightarrow>
             \<lparr>page = \<lparr>code = 200, name = ''index.html'',
                       obj = [''query'' \<mapsto> Str query,
                              ''answer'' \<mapsto> Str (Answer response),
                              ''coordinates'' \<mapsto> Coords (Coordinates response),
                              ''cells'' \<mapsto> Strs (Cells response),
                              ''aggregator'' \<mapsto> Str (Aggregator response)]\<rparr>,
              calls = [out]\<rparr>))"

text \<open>
  An attempt that is answered "loading": status 503 with a usable estimated time, which is
  the one case the loop goes round for.
\<close>

definition loading :: "Libraries \<Rightarrow> Request \<Rightarrow> nat \<Rightarrow> real option" where
  "loading L req i =
     (case Do L i req of
        Inl err \<Rightarrow> None
      | Inr resp \<Rightarrow> if StatusCode resp = 503 then estimatedTime L (Body resp) else None)"

section \<open>A mocked transport for the concrete runs\<close>

text \<open>
  Bodies the remote service sends: the cold-start answer \<^verbatim>\<open>{"estimated_time": 0.0}\<close>,
  a JSON object without an estimated time, and an answer of the expected shape. The two
  JSON functions below give what Go's \<^verbatim>\<open>encoding/json\<close> gives on these bodies, and an
  error on any other text.
\<close>

definition loading_body :: string where
  "loading_body = ''{'' @ [DQ] @ ''estimated_time'' @ [DQ] @ '': 0.0}''"

definition answer_body :: string where
  "answer_body = ''{'' @ [DQ] @ ''answer'' @ [DQ] @ '': '' @ [DQ] @ ''42'' @ [DQ] @ ''}''"

definition mock_Unmarshal :: "string \<Rightarrow> (string \<rightharpoonup> json_value) option" where
  "mock_Unmarshal body =
     (if body = loading_body then Some [''estimated_time'' \<mapsto> Float64 0]
      else if body = ''{}'' then Some Map.empty
      else if body = answer_body then Some [''answer'' \<mapsto> NotFloat64]
      else None)"

definition mock_Decode :: "string \<Rightarrow> string + Response" where
  "mock_Decode body =
     (if body = answer_body
      then Inr \<lparr>Answer = ''42'', Coordinates = [], Cells = [], Aggregator = []\<rparr>
      else if body = ''{}''
      then Inr \<lparr>Answer = [], Coordinates = [], Cells = [], Aggregator = []\<rparr>
      else Inl ''invalid character'')"

definition service_unavailable :: "string \<Rightarrow> string + HttpResponse" where
  "service_unavailable body =
     Inr \<lparr>StatusCode = 503, Status = ''503 Service Unavailable'', Body = body\<rparr>"

definition status_ok :: "string \<Rightarrow> string + HttpResponse" where
  "status_ok body = Inr \<lparr>StatusCode = 200, Status = ''200 OK'', Body = body\<rparr>"

text \<open>
  The libraries with a transport that answers the attempts before \<open>n\<close> with "loading"
  and every later one with \<open>answer\<close>.
\<close>

definition mock :: "nat \<Rightarrow> (string + HttpResponse) \<Rightarrow> Libraries" where
  "mock n answer =
     \<lparr>Marshal = (\<lambda>payload. Inr (''{}'')),
      Do = (\<lambda>i req. if i < n then service_unavailable loading_body else answer),
      Decode = mock_Decode,
      Unmarshal = mock_Unmarshal\<rparr>"

lemmas mock_eval = mock_def service_unavailable_def status_ok_def mock_Decode_def
  mock_Unmarshal_def loading_body_def answer_body_def estimatedTime_def loading_def

section \<open>How the retry loop runs\<close>

lemma retry_loop_loading:
  "i < maxRetries \<Longrightarrow> loading L req i = Some t \<Longrightarrow>
   retry_loop L req i slept = retry_loop L req (Suc i) (slept @ [t])"
  by (subst retry_loop.simps)
    (auto simp: loading_def ioutil_ReadAll_def split: sum.splits if_splits)

lemma retry_loop_prefix:
  "k \<le> maxRetries \<Longrightarrow> \<forall>i<k. loading L req i = Some (ts i) \<Longrightarrow>
   retry_loop L req 0 [] = retry_loop L req k (map ts [0..<k])"
proof (induction k)
  case 0
  then show ?case by simp
next
  case (Suc k)
  from Suc.prems have "retry_loop L req 0 [] = retry_loop L req k (map ts [0..<k])"
    by (intro Suc.IH) auto
  also have "\<dots> = retry_loop L req (Suc k) (map ts [0..<k] @ [ts k])"
    using Suc.prems by (intro retry_loop_loading) auto
  finally show ?case by simp
qed

lemma retry_loop_exhausted:
  "retry_loop L req maxRetries slept =
     \<lparr>returned = Inl (Errorf ''max retries reached, failed to connect to AI model''),
      requests = maxRetries, sleeps = slept\<rparr>"
  by (subst retry_loop.simps) simp

lemma retry_loop_transport:
  "i < maxRetries \<Longrightarrow> Do L i req = Inl err \<Longrightarrow>
   retry_loop L req i slept =
     \<lparr>returned = Inl (TransportError err), requests = Suc i, sleeps = slept\<rparr>"
  by (subst retry_loop.simps) simp

lemma retry_loop_ok:
  "i < maxRetries \<Longrightarrow> Do L i req = Inr resp \<Longrightarrow> StatusCode resp = 200 \<Longrightarrow>
   Decode L (Body resp) = Inr aiResponse \<Longrightarrow>
   retry_loop L req i slept = \<lparr>returned = Inr aiResponse, requests = Suc i, sleeps = slept\<rparr>"
  by (subst retry_loop.simps) simp

lemma retry_loop_other_status:
  "i < maxRetries \<Longrightarrow> Do L i req = Inr resp \<Longrightarrow> StatusCode resp \<noteq> 200 \<Longrightarrow>
   StatusCode resp \<noteq> 503 \<Longrightarrow>
   retry_loop L req i slept =
     \<lparr>returned = Inl (Errorf (''failed to connect to AI model, status: '' @ Status resp @
                               '', response: '' @ Body resp)),
      requests = Suc i, sleeps = slept\<rparr>"
  by (subst retry_loop.simps) (simp add: failed_def ioutil_ReadAll_def)

lemma retry_loop_no_estimate:
  "i < maxRetries \<Longrightarrow> Do L i req = Inr resp \<Longrightarrow> StatusCode resp = 503 \<Longrightarrow>
   estimatedTime L (Body resp) = None \<Longrightarrow>
   retry_loop L req i slept =
     \<lparr>returned = Inl (Errorf (''failed to connect to AI model, status: '' @ Status resp @
                               '', response: '')),
      requests = Suc i, sleeps = slept\<rparr>"
  by (subst retry_loop.simps) (simp add: failed_def ioutil_ReadAll_def)

lemma loading_I:
  "Do L i req = Inr resp \<Longrightarrow> StatusCode resp = 503 \<Longrightarrow> estimatedTime L (Body resp) = Some t \<Longrightarrow>
   loading L req i = Some t"
  by (simp add: loading_def)

lemma ConnectAIModel_other_status:
  assumes "Marshal L payload = Inr data"
    and "k < maxRetries"
    and "\<forall>i<k. loading L (NewRequest token data) i \<noteq> None"
    and "Do L k (NewRequest token data) = Inr resp"
    and "StatusCode resp \<noteq> 200" and "StatusCode resp \<noteq> 503"
  shows "returned (ConnectAIModel L payload token) =
           Inl (Errorf (''failed to connect to AI model, status: '' @ Status resp @
                        '', response: '' @ Body resp)) \<and>
         requests (ConnectAIModel L payload token) = Suc k"
proof -
  let ?req = "NewRequest token data"
  from assms(3) have l: "\<forall>i<k. loading L ?req i = Some ((\<lambda>i. the (loading L ?req i)) i)"
    by auto
  have "ConnectAIModel L payload token = retry_loop L ?req 0 []"
    using assms(1) by (simp add: ConnectAIModel_def)
  also have "\<dots> = retry_loop L ?req k (map (\<lambda>i. the (loading L ?req i)) [0..<k])"
    using l assms(2) by (intro retry_loop_prefix) simp_all
  finally show ?thesis using retry_loop_other_status[OF assms(2,4,5,6)] by simp
qed

section \<open>Claims about ConnectAIModel and the handler\<close>

text \<open>
  Claim C2: a response whose status is neither 200 nor a 503 with a usable
  \<^verbatim>\<open>estimated_time\<close> makes \<^verbatim>\<open>ConnectAIModel\<close> fail at once with an error that
  carries the status and the raw response body, a 503 without a usable estimated time
  included.

  For a status other than 200 and 503 the code does so (the lemma on other statuses
  above). For a 503 without a usable estimated time it does not: the body has been read
  to its end at line 100, so the second \<^verbatim>\<open>ioutil.ReadAll\<close> at line 110 reads nothing,
  and the error made at line 111 carries the status and an empty response text, whatever
  the body was. The theorem states what the code returns there.
\<close>

theorem ConnectAIModel_503_without_estimate:
  assumes "Marshal L payload = Inr data"
    and "k < maxRetries"
    and "\<forall>i<k. loading L (NewRequest token data) i \<noteq> None"
    and "Do L k (NewRequest token data) = Inr resp"
    and "StatusCode resp = 503"
    and "estimatedTime L (Body resp) = None"
  shows "returned (ConnectAIModel L payload token) =
           Inl (Errorf (''failed to connect to AI model, status: '' @ Status resp @
                        '', response: '')) \<and>
         requests (ConnectAIModel L payload token) = Suc k"
proof -
  let ?req = "NewRequest token data"
  from assms(3) have l: "\<forall>i<k. loading L ?req i = Some ((\<lambda>i. the (loading L ?req i)) i)"
    by auto
  have "ConnectAIModel L payload token = retry_loop L ?req 0 []"
    using assms(1) by (simp add: ConnectAIModel_def)
  also have "\<dots> = retry_loop L ?req k (map (\<lambda>i. the (loading L ?req i)) [0..<k])"
    using l assms(2) by (intro retry_loop_prefix) simp_all
  finally show ?thesis using retry_loop_no_estimate[OF assms(2,4,5,6)] by simp
qed

theorem ConnectAIModel_503_without_estimate_witness:
  "returned (ConnectAIModel (mock 0 (service_unavailable ''{}'')) \<lparr>Table = Map.empty, Query = ''how many?''\<rparr> ''token'')
     = Inl (Errorf ''failed to connect to AI model, status: 503 Service Unavailable, response: '') \<and>
   requests (ConnectAIModel (mock 0 (service_unavailable ''{}'')) \<lparr>Table = Map.empty, Query = ''how many?''\<rparr> ''token'')
     = 1 \<and>
   Do (mock 0 (service_unavailable ''{}'')) 0 (NewRequest ''token'' ''{}'') =
     Inr \<lparr>StatusCode = 503, Status = ''503 Service Unavailable'', Body = ''{}''\<rparr>"
proof -
  let ?L = "mock 0 (service_unavailable ''{}'')"
  let ?p = "\<lparr>Table = Map.empty, Query = ''how many?''\<rparr>"
  let ?r = "\<lparr>StatusCode = 503, Status = ''503 Service Unavailable'', Body = ''{}''\<rparr>"
  have m: "Marshal ?L ?p = Inr ''{}''" by (simp add: mock_def)
  have k: "0 < maxRetries" by (simp add: maxRetries_def)
  have a: "\<forall>i<0. loading ?L (NewRequest ''token'' ''{}'') i \<noteq> None" by simp
  have d: "Do ?L 0 (NewRequest ''token'' ''{}'') = Inr ?r" by (simp add: mock_eval)
  have s: "StatusCode ?r = 503" by simp
  have e: "estimatedTime ?L (Body ?r) = None" by (simp add: mock_eval)
  from ConnectAIModel_503_without_estimate[OF m k a d s e] d show ?thesis by simp
qed

text \<open>
  Claim C3: when every attempt is answered with status 503 and a JSON body whose
  \<^verbatim>\<open>estimated_time\<close> is 0.0, \<^verbatim>\<open>ConnectAIModel\<close> sends exactly 10 requests,
  sleeping for the estimated time after each, and then fails with the error
  "max retries reached, failed to connect to AI model"; it returns no decoded result.
\<close>

theorem ConnectAIModel_retry_exhausted:
  assumes "Marshal L payload = Inr data"
    and "\<forall>i<maxRetries. \<exists>resp. Do L i (NewRequest token data) = Inr resp \<and>
            StatusCode resp = 503 \<and> estimatedTime L (Body resp) = Some 0"
  shows "ConnectAIModel L payload token =
     \<lparr>returned = Inl (Errorf ''max retries reached, failed to connect to AI model''),
      requests = 10, sleeps = replicate 10 0\<rparr>"
proof -
  let ?req = "NewRequest token data"
  from assms(2) have l: "\<forall>i<maxRetries. loading L ?req i = Some ((\<lambda>i. 0) i)"
    by (auto intro: loading_I)
  have m: "map (\<lambda>i. 0::real) [0..<maxRetries] = replicate 10 0"
    by (simp add: maxRetries_def map_replicate_const)
  have "ConnectAIModel L payload token = retry_loop L ?req 0 []"
    using assms(1) by (simp add: ConnectAIModel_def)
  also have "\<dots> = retry_loop L ?req maxRetries (map (\<lambda>i. 0) [0..<maxRetries])"
    using l by (intro retry_loop_prefix) simp_all
  finally show ?thesis by (simp add: retry_loop_exhausted m) (simp add: maxRetries_def)
qed

theorem ConnectAIModel_retry_exhausted_witness:
  "ConnectAIModel (mock 10 (status_ok answer_body)) \<lparr>Table = Map.empty, Query = ''how many?''\<rparr> ''token'' =
     \<lparr>returned = Inl (Errorf ''max retries reached, failed to connect to AI model''),
      requests = 10, sleeps = replicate 10 0\<rparr>"
proof -
  let ?L = "mock 10 (status_ok answer_body)"
  have m: "Marshal ?L \<lparr>Table = Map.empty, Query = ''how many?''\<rparr> = Inr ''{}''"
    by (simp add: mock_def)
  have a: "\<forall>i<maxRetries. \<exists>resp. Do ?L i (NewRequest ''token'' ''{}'') = Inr resp \<and>
            StatusCode resp = 503 \<and> estimatedTime ?L (Body resp) = Some 0"
    by (simp add: mock_eval maxRetries_def)
  from ConnectAIModel_retry_exhausted[OF m a] show ?thesis .
qed

text \<open>
  Claim C4: when the first attempt is answered with status 503 and an
  \<^verbatim>\<open>estimated_time\<close> of 0.0, and the second with status 200 and a body that decodes,
  \<^verbatim>\<open>ConnectAIModel\<close> returns the decoded result after two requests and one sleep.
\<close>

theorem ConnectAIModel_one_retry:
  assumes "Marshal L payload = Inr data"
    and "Do L 0 (NewRequest token data) = Inr r0" and "StatusCode r0 = 503"
    and "estimatedTime L (Body r0) = Some 0"
    and "Do L 1 (NewRequest token data) = Inr r1" and "StatusCode r1 = 200"
    and "Decode L (Body r1) = Inr aiResponse"
  shows "ConnectAIModel L payload token =
     \<lparr>returned = Inr aiResponse, requests = 2, sleeps = [0]\<rparr>"
proof -
  let ?req = "NewRequest token data"
  have l0: "loading L ?req 0 = Some 0" using assms(2-4) by (rule loading_I)
  have "ConnectAIModel L payload token = retry_loop L ?req 0 []"
    using assms(1) by (simp add: ConnectAIModel_def)
  also have "\<dots> = retry_loop L ?req (Suc 0) ([] @ [0])"
    using l0 by (intro retry_loop_loading) (simp_all add: maxRetries_def)
  also have "\<dots> = \<lparr>returned = Inr aiResponse, requests = Suc (Suc 0), sleeps = [] @ [0]\<rparr>"
    using assms(5-7) by (intro retry_loop_ok) (simp_all add: maxRetries_def)
  finally show ?thesis by (simp add: numeral_2_eq_2)
qed

theorem ConnectAIModel_one_retry_witness:
  "ConnectAIModel (mock 1 (status_ok answer_body)) \<lparr>Table = Map.empty, Query = ''how many?''\<rparr> ''token'' =
     \<lparr>returned = Inr \<lparr>Answer = ''42'', Coordinates = [], Cells = [], Aggregator = []\<rparr>,
      requests = 2, sleeps = [0]\<rparr>"
proof -
  let ?L = "mock 1 (status_ok answer_body)"
  let ?r0 = "\<lparr>StatusCode = 503, Status = ''503 Service Unavailable'', Body = loading_body\<rparr>"
  let ?r1 = "\<lparr>StatusCode = 200, Status = ''200 OK'', Body = answer_body\<rparr>"
  have m: "Marshal ?L \<lparr>Table = Map.empty, Query = ''how many?''\<rparr> = Inr ''{}''"
    by (simp add: mock_def)
  have d0: "Do ?L 0 (NewRequest ''token'' ''{}'') = Inr ?r0" by (simp add: mock_eval)
  have s0: "StatusCode ?r0 = 503" by simp
  have e0: "estimatedTime ?L (Body ?r0) = Some 0" by (simp add: mock_eval)
  have d1: "Do ?L 1 (NewRequest ''token'' ''{}'') = Inr ?r1" by (simp add: mock_eval)
  have s1: "StatusCode ?r1 = 200" by simp
  have c1: "Decode ?L (Body ?r1) = Inr \<lparr>Answer = ''42'', Coordinates = [], Cells = [], Aggregator = []\<rparr>"
    by (simp add: mock_eval)
  from ConnectAIModel_one_retry[OF m d0 s0 e0 d1 s1 c1] show ?thesis .
qed

text \<open>
  Claim C5: when the transport reports an error on an attempt (every attempt before it
  having been answered "loading", which is how the loop gets there),
  \<^verbatim>\<open>ConnectAIModel\<close> returns that transport error and that attempt's request is the
  last one sent: a transport failure is not retried.
\<close>

theorem ConnectAIModel_transport_error:
  assumes "Marshal L payload = Inr data"
    and "k < maxRetries"
    and "\<forall>i<k. loading L (NewRequest token data) i \<noteq> None"
    and "Do L k (NewRequest token data) = Inl err"
  shows "returned (ConnectAIModel L payload token) = Inl (TransportError err) \<and>
         requests (ConnectAIModel L payload token) = Suc k"
proof -
  let ?req = "NewRequest token data"
  from assms(3) have l: "\<forall>i<k. loading L ?req i = Some ((\<lambda>i. the (loading L ?req i)) i)"
    by auto
  have "ConnectAIModel L payload token = retry_loop L ?req 0 []"
    using assms(1) by (simp add: ConnectAIModel_def)
  also have "\<dots> = retry_loop L ?req k (map (\<lambda>i. the (loading L ?req i)) [0..<k])"
    using l assms(2) by (intro retry_loop_prefix) simp_all
  finally show ?thesis using retry_loop_transport[OF assms(2,4)] by simp
qed

theorem ConnectAIModel_transport_error_witness:
  "returned (ConnectAIModel (mock 2 (Inl ''connection refused'')) \<lparr>Table = Map.empty, Query = ''how many?''\<rparr> ''token'')
     = Inl (TransportError ''connection refused'') \<and>
   requests (ConnectAIModel (mock 2 (Inl ''connection refused'')) \<lparr>Table = Map.empty, Query = ''how many?''\<rparr> ''token'')
     = 3 \<and>
   returned (ConnectAIModel (mock 0 (Inl ''connection refused'')) \<lparr>Table = Map.empty, Query = ''how many?''\<rparr> ''token'')
     = Inl (TransportError ''connection refused'') \<and>
   requests (ConnectAIModel (mock 0 (Inl ''connection refused'')) \<lparr>Table = Map.empty, Query = ''how many?''\<rparr> ''token'')
     = 1"
proof -
  let ?L = "mock 2 (Inl ''connection refused'')"
  let ?M = "mock 0 (Inl ''connection refused'')"
  let ?p = "\<lparr>Table = Map.empty, Query = ''how many?''\<rparr>"
  have m: "Marshal ?L ?p = Inr ''{}''" and m0: "Marshal ?M ?p = Inr ''{}''"
    by (simp_all add: mock_def)
  have k: "2 < maxRetries" and k0: "0 < maxRetries" by (simp_all add: maxRetries_def)
  have a: "\<forall>i<2. loading ?L (NewRequest ''token'' ''{}'') i \<noteq> None"
    by (simp add: mock_eval)
  have a0: "\<forall>i<0. loading ?M (NewRequest ''token'' ''{}'') i \<noteq> None" by simp
  have d: "Do ?L 2 (NewRequest ''token'' ''{}'') = Inl ''connection refused''"
    by (simp add: mock_eval)
  have d0: "Do ?M 0 (NewRequest ''token'' ''{}'') = Inl ''connection refused''"
    by (simp add: mock_eval)
  from ConnectAIModel_transport_error[OF m k a d] ConnectAIModel_transport_error[OF m0 k0 a0 d0]
  show ?thesis by (simp add: numeral_3_eq_3)
qed

text \<open>
  Claim C9: a request to POST /query whose form field \<^verbatim>\<open>query\<close> is empty (or
  missing) is answered with status 400 and the message "Query cannot be empty", and
  \<^verbatim>\<open>ConnectAIModel\<close> is not called, so no request goes to the model.
\<close>

theorem query_handler_empty_query:
  "PostForm form ''query'' = [] \<Longrightarrow>
   query_handler L tbl token form =
     \<lparr>page = \<lparr>code = 400, name = ''index.html'',
               obj = [''error'' \<mapsto> Str ''Query cannot be empty'']\<rparr>,
      calls = []\<rparr>"
  by (simp add: query_handler_def)

theorem query_handler_empty_query_witness:
  "PostForm [''query'' \<mapsto> [[]]] ''query'' = [] \<and>
   query_handler (mock 0 (status_ok answer_body)) [''a'' \<mapsto> [''1'']] ''token'' [''query'' \<mapsto> [[]]] =
     \<lparr>page = \<lparr>code = 400, name = ''index.html'',
               obj = [''error'' \<mapsto> Str ''Query cannot be empty'']\<rparr>,
      calls = []\<rparr> \<and>
   PostForm Map.empty ''query'' = [] \<and>
   query_handler (mock 0 (status_ok answer_body)) [''a'' \<mapsto> [''1'']] ''token'' Map.empty =
     \<lparr>page = \<lparr>code = 400, name = ''index.html'',
               obj = [''error'' \<mapsto> Str ''Query cannot be empty'']\<rparr>,
      calls = []\<rparr>"
proof -
  have a: "PostForm [''query'' \<mapsto> [[]]] ''query'' = []" by (simp add: PostForm_def)
  have b: "PostForm Map.empty ''query'' = []" by (simp add: PostForm_def)
  from a b query_handler_empty_query[OF a] query_handler_empty_query[OF b] show ?thesis by simp
qed

text \<open>A query that is not empty does reach the model: the handler is not constant.\<close>

lemma query_handler_asks:
  "query_handler (mock 0 (status_ok answer_body)) Map.empty ''token'' [''query'' \<mapsto> [''how many?'']] =
     \<lparr>page = \<lparr>code = 200, name = ''index.html'',
               obj = [''query'' \<mapsto> Str ''how many?'', ''answer'' \<mapsto> Str ''42'',
                      ''coordinates'' \<mapsto> Coords [], ''cells'' \<mapsto> Strs [],
                      ''aggregator'' \<mapsto> Str []]\<rparr>,
      calls = [\<lparr>returned = Inr \<lparr>Answer = ''42'', Coordinates = [], Cells = [], Aggregator = []\<rparr>,
                requests = 1, sleeps = []\<rparr>]\<rparr>"
  by (simp add: query_handler_def PostForm_def ConnectAIModel_def NewRequest_def
      retry_loop.simps maxRetries_def mock_eval)

end
